theory Spec2Isabelle
  imports Main "HOL-Library.Monad_Syntax"
begin

section \<open>Orders and the order book\<close>

text \<open>
  The embedding follows \<^verbatim>\<open>stock_engine.py\<close>. Python objects live in an explicit
  store: an \<open>Order\<close> object is an address, and the store maps every address to the
  fields of the object found there. Object identity (\<^verbatim>\<open>is\<close>) is equality of addresses.
  The field \<^verbatim>\<open>next\<close> holds a \<^verbatim>\<open>ctypes.py_object\<close> box whose \<^verbatim>\<open>value\<close> is never
  assigned after the box is built, so the box is modelled by its content, an optional
  address; a box built from an object or from \<^verbatim>\<open>None\<close> is true and has the attribute
  \<^verbatim>\<open>value\<close>, so every read \<^verbatim>\<open>x.next.value if x.next and hasattr(x.next, 'value') else x.next\<close>
  is a read of the content. The per-order lock and the CAS lock are always free in a sequential run and
  are not modelled. Lines printed by the program are kept as a list of events.
\<close>

type_synonym addr = nat

record order =
  otype :: string
  ticker :: int
  quantity :: int
  price :: int
  nxt :: "addr option"

text \<open>The two constants of class \<^verbatim>\<open>OrderType\<close>.\<close>

definition BUY :: string where
  "BUY = ''BUY''"

definition SELL :: string where
  "SELL = ''SELL''"

text \<open>\<^verbatim>\<open>Order.__init__\<close>: the quantity is raised to at least 1.\<close>

definition Order_init :: "string \<Rightarrow> int \<Rightarrow> int \<Rightarrow> int \<Rightarrow> order" where
  "Order_init order_type tick qty prc =
     \<lparr>otype = order_type, ticker = tick, quantity = max 1 qty, price = prc, nxt = None\<rparr>"

text \<open>
  Output: \<open>Order_Added\<close> is the line printed by \<^verbatim>\<open>add_order\<close> (with the order as
  printed); \<open>Match_Found t b q p\<close> is the line printed by \<^verbatim>\<open>match_order\<close> in thread
  \<open>t\<close>: the matched order \<open>b\<close> as printed (before its quantity is reduced), the traded
  quantity \<open>q\<close> and the price \<open>p\<close>.
\<close>

datatype event = Order_Added order | Match_Found int order int int

record book =
  head :: "addr option"
  heap :: "addr \<Rightarrow> order"
  out :: "event list"

definition OrderBook_init :: "(addr \<Rightarrow> order) \<Rightarrow> book" where
  "OrderBook_init h = \<lparr>head = None, heap = h, out = []\<rparr>"

text \<open>
  \<^verbatim>\<open>atomic_compare_and_swap\<close> is only ever called on \<^verbatim>\<open>self.head\<close>; the model
  compares and swaps the head pointer.
\<close>

definition atomic_compare_and_swap :: "book \<Rightarrow> addr option \<Rightarrow> addr option \<Rightarrow> bool \<times> book" where
  "atomic_compare_and_swap st old new =
     (if head st = old then (True, st\<lparr>head := new\<rparr>) else (False, st))"

text \<open>
  \<^verbatim>\<open>add_order\<close> retries until the swap succeeds. A loop of the source that is not
  bounded by its text is a partial function into \<open>option\<close>; \<open>None\<close> stands for a run
  that does not return.
\<close>

partial_function (option) add_order :: "book \<Rightarrow> addr \<Rightarrow> book option" where
  "add_order st ord =
     (let old_head = head st;
          st1 = st\<lparr>heap := (heap st)(ord := (heap st ord)\<lparr>nxt := old_head\<rparr>)\<rparr>;
          r = atomic_compare_and_swap st1 old_head (Some ord)
      in if fst r
         then Some ((snd r)\<lparr>out := out (snd r) @ [Order_Added (heap (snd r) ord)]\<rparr>)
         else add_order (snd r) ord)"

declare add_order.simps [code]

text \<open>
  The search loop of \<^verbatim>\<open>match_order\<close> (lines 71 to 93), with the loop variables
  \<^verbatim>\<open>cur\<close>, \<^verbatim>\<open>prev\<close>, \<^verbatim>\<open>best_match\<close> and \<^verbatim>\<open>best_match_prev\<close> as arguments.
  The branch for an exhausted order moves \<^verbatim>\<open>cur\<close> on and leaves \<^verbatim>\<open>prev\<close> as it is.
\<close>

partial_function (option) scan ::
  "(addr \<Rightarrow> order) \<Rightarrow> addr \<Rightarrow> addr option \<Rightarrow> addr option \<Rightarrow> addr option \<Rightarrow> addr option
     \<Rightarrow> (addr option \<times> addr option) option" where
  "scan h incoming cur prev best_match best_match_prev =
     (case cur of
        None \<Rightarrow> Some (best_match, best_match_prev)
      | Some c \<Rightarrow>
          if quantity (h c) \<le> 0
          then scan h incoming (nxt (h c)) prev best_match best_match_prev
          else if (otype (h incoming) = BUY \<and> otype (h c) = SELL \<and>
                   ticker (h c) = ticker (h incoming) \<and> price (h c) \<le> price (h incoming)) \<or>
                  (otype (h incoming) = SELL \<and> otype (h c) = BUY \<and>
                   ticker (h c) = ticker (h incoming) \<and> price (h c) \<ge> price (h incoming))
          then (if best_match = None \<or>
                   (otype (h incoming) = BUY \<and> price (h c) < price (h (the best_match))) \<or>
                   (otype (h incoming) = SELL \<and> price (h c) > price (h (the best_match)))
                then scan h incoming (nxt (h c)) (Some c) (Some c) prev
                else scan h incoming (nxt (h c)) (Some c) best_match best_match_prev)
          else scan h incoming (nxt (h c)) (Some c) best_match best_match_prev)"

declare scan.simps [code]

text \<open>
  \<^verbatim>\<open>match_order\<close> returns its boolean result together with the new state.
\<close>

definition match_order :: "book \<Rightarrow> addr \<Rightarrow> int \<Rightarrow> (bool \<times> book) option" where
  "match_order st incoming thread_id =
     (case scan (heap st) incoming (head st) None None None of
        None \<Rightarrow> None
      | Some (None, best_match_prev) \<Rightarrow> Some (False, st)
      | Some (Some best_match, best_match_prev) \<Rightarrow>
          (let traded_qty = min (quantity (heap st incoming)) (quantity (heap st best_match))
           in if traded_qty = 0 then Some (False, st)
              else
                (let st1 = st\<lparr>out := out st @
                             [Match_Found thread_id (heap st best_match) traded_qty
                                (price (heap st best_match))]\<rparr>;
                     st2 = st1\<lparr>heap := (heap st1)(incoming := (heap st1 incoming)
                             \<lparr>quantity := quantity (heap st1 incoming) - traded_qty\<rparr>)\<rparr>;
                     st3 = st2\<lparr>heap := (heap st2)(best_match := (heap st2 best_match)
                             \<lparr>quantity := quantity (heap st2 best_match) - traded_qty\<rparr>)\<rparr>
                 in if quantity (heap st3 best_match) = 0
                    then (case best_match_prev of
                            None \<Rightarrow>
                              Some (True, snd (atomic_compare_and_swap st3 (Some best_match)
                                                 (nxt (heap st3 best_match))))
                          | Some p \<Rightarrow>
                              Some (True, st3\<lparr>heap := (heap st3)(p := (heap st3 p)
                                             \<lparr>nxt := nxt (heap st3 best_match)\<rparr>)\<rparr>))
                    else Some (True, st3))))"

text \<open>\<^verbatim>\<open>process_orders\<close>: the loop, and the call that starts it at the head.\<close>

partial_function (option) process_loop :: "book \<Rightarrow> int \<Rightarrow> addr option \<Rightarrow> book option" where
  "process_loop st thread_id cur =
     (case cur of
        None \<Rightarrow> Some st
      | Some c \<Rightarrow>
          if quantity (heap st c) > 0
          then (case match_order st c thread_id of
                  None \<Rightarrow> None
                | Some r \<Rightarrow>
                    if fst r then process_loop (snd r) thread_id (head (snd r))
                    else process_loop (snd r) thread_id (nxt (heap (snd r) c)))
          else process_loop st thread_id (nxt (heap st c)))"

declare process_loop.simps [code]

definition process_orders :: "book \<Rightarrow> int \<Rightarrow> book option" where
  "process_orders st thread_id = process_loop st thread_id (head st)"

text \<open>
  \<^verbatim>\<open>get_order_list\<close>: the loop appends every order it visits; it reads the book only.
\<close>

partial_function (option) collect :: "(addr \<Rightarrow> order) \<Rightarrow> addr option \<Rightarrow> addr list \<Rightarrow> addr list option" where
  "collect h cur orders =
     (case cur of
        None \<Rightarrow> Some orders
      | Some c \<Rightarrow> collect h (nxt (h c)) (orders @ [c]))"

declare collect.simps [code]

definition get_order_list :: "book \<Rightarrow> addr list option" where
  "get_order_list st = collect (heap st) (head st) []"

section \<open>Books that are lists\<close>

text \<open>
  \<open>chain h p xs\<close>: following \<^verbatim>\<open>next\<close> from \<open>p\<close> visits exactly the orders \<open>xs\<close>, in
  this order, and then reaches \<^verbatim>\<open>None\<close>. A book is a finite list when its head has a
  chain. \<open>reachable h p a\<close>: the order \<open>a\<close> is met when following \<^verbatim>\<open>next\<close> from \<open>p\<close>.
\<close>

fun chain :: "(addr \<Rightarrow> order) \<Rightarrow> addr option \<Rightarrow> addr list \<Rightarrow> bool" where
  "chain h p [] = (p = None)"
| "chain h p (a # as) = (p = Some a \<and> chain h (nxt (h a)) as)"

inductive reachable :: "(addr \<Rightarrow> order) \<Rightarrow> addr option \<Rightarrow> addr \<Rightarrow> bool" for h where
  here: "reachable h (Some a) a"
| step: "reachable h (nxt (h a)) b \<Longrightarrow> reachable h (Some a) b"

text \<open>
  The words of the specification: an order \<open>c\<close> is eligible against the incoming order
  when it is for the same instrument, on the opposite side, and its price crosses;
  \<open>better inc c b\<close> says that the price of \<open>c\<close> is strictly better than that of \<open>b\<close> for
  the incoming order (lower for a BUY, higher for a SELL); a candidate is an eligible
  order with a positive remaining quantity.
\<close>

definition eligible :: "order \<Rightarrow> order \<Rightarrow> bool" where
  "eligible inc c \<longleftrightarrow>
     ticker c = ticker inc \<and>
     (otype inc = BUY \<and> otype c = SELL \<and> price c \<le> price inc \<or>
      otype inc = SELL \<and> otype c = BUY \<and> price c \<ge> price inc)"

definition better :: "order \<Rightarrow> order \<Rightarrow> order \<Rightarrow> bool" where
  "better inc c b \<longleftrightarrow>
     otype inc = BUY \<and> price c < price b \<or> otype inc = SELL \<and> price c > price b"

definition candidate :: "(addr \<Rightarrow> order) \<Rightarrow> addr \<Rightarrow> addr \<Rightarrow> bool" where
  "candidate h incoming c \<longleftrightarrow> 0 < quantity (h c) \<and> eligible (h incoming) (h c)"

text \<open>
  \<open>last_pos h prev xs\<close> is the last order of \<open>xs\<close> with a positive quantity, and \<open>prev\<close>
  when there is none: the value of the loop variable \<^verbatim>\<open>prev\<close> after the search has
  walked over \<open>xs\<close>. \<open>scan_list\<close> is the search loop run over the list of a chain.
\<close>

fun last_pos :: "(addr \<Rightarrow> order) \<Rightarrow> addr option \<Rightarrow> addr list \<Rightarrow> addr option" where
  "last_pos h prev [] = prev"
| "last_pos h prev (a # as) = last_pos h (if 0 < quantity (h a) then Some a else prev) as"

fun scan_list ::
  "(addr \<Rightarrow> order) \<Rightarrow> addr \<Rightarrow> addr list \<Rightarrow> addr option \<Rightarrow> addr option \<Rightarrow> addr option
     \<Rightarrow> addr option \<times> addr option" where
  "scan_list h incoming [] prev best bp = (best, bp)"
| "scan_list h incoming (c # cs) prev best bp =
     (if quantity (h c) \<le> 0 then scan_list h incoming cs prev best bp
      else if eligible (h incoming) (h c) \<and>
              (best = None \<or> better (h incoming) (h c) (h (the best)))
           then scan_list h incoming cs (Some c) (Some c) prev
           else scan_list h incoming cs (Some c) best bp)"

text \<open>
  The two halves of the second part of \<^verbatim>\<open>match_order\<close>, named for the statements
  below: \<open>traded st i b t q\<close> is the state after the trade of \<open>q\<close> between the incoming
  order \<open>i\<close> and the matched order \<open>b\<close> has been printed and both quantities reduced
  (lines 105 to 109); \<open>unlinked s b rp\<close> is the removal of \<open>b\<close> with the predecessor \<open>rp\<close>
  that the search returned (lines 113 to 117). \<open>weight h xs\<close> is the total of the positive
  quantities of the orders \<open>xs\<close>.
\<close>

definition traded :: "book \<Rightarrow> addr \<Rightarrow> addr \<Rightarrow> int \<Rightarrow> int \<Rightarrow> book" where
  "traded st i b t q =
     st\<lparr>out := out st @ [Match_Found t (heap st b) q (price (heap st b))],
        heap := (heap st)
          (i := (heap st i)\<lparr>quantity := quantity (heap st i) - q\<rparr>,
           b := (heap st b)\<lparr>quantity := quantity (heap st b) - q\<rparr>)\<rparr>"

definition unlinked :: "book \<Rightarrow> addr \<Rightarrow> addr option \<Rightarrow> book" where
  "unlinked s b rp =
     (case rp of
        None \<Rightarrow> snd (atomic_compare_and_swap s (Some b) (nxt (heap s b)))
      | Some p \<Rightarrow> s\<lparr>heap := (heap s)(p := (heap s p)\<lparr>nxt := nxt (heap s b)\<rparr>)\<rparr>)"

definition weight :: "(addr \<Rightarrow> order) \<Rightarrow> addr list \<Rightarrow> nat" where
  "weight h xs = sum_list (map (\<lambda>a. nat (quantity (h a))) xs)"

section \<open>Example books\<close>

text \<open>
  Stores used to run the program on concrete orders. Every address of \<open>blank\<close> holds an
  order whose side is the empty string, which matches nothing.
\<close>

definition blank :: "addr \<Rightarrow> order" where
  "blank = (\<lambda>_. Order_init [] 0 0 0)"

text \<open>
  Two SELL orders at price 8, the order 1 inserted before the order 2, below a SELL at
  price 10; the order 4 is a BUY at price 12 that is not in the book.
\<close>

definition tie_book :: book where
  "tie_book =
     \<lparr>head = Some 3,
      heap = blank
        (1 := Order_init SELL 1 5 8,
         2 := (Order_init SELL 1 5 8)\<lparr>nxt := Some 1\<rparr>,
         3 := (Order_init SELL 1 5 10)\<lparr>nxt := Some 2\<rparr>,
         4 := Order_init BUY 1 5 12),
      out = []\<rparr>"

text \<open>A SELL of 50 at price 100 and, inserted after it, a BUY of 30 at price 105.\<close>

definition e2e_book :: book where
  "e2e_book =
     \<lparr>head = Some 2,
      heap = blank
        (1 := Order_init SELL 1 50 100,
         2 := (Order_init BUY 1 30 105)\<lparr>nxt := Some 1\<rparr>),
      out = []\<rparr>"

text \<open>The book \<open>e2e_book\<close> after its trade: the BUY has quantity 0 and is still the head.\<close>

definition filled_book :: book where
  "filled_book =
     \<lparr>head = Some 2,
      heap = blank
        (1 := (Order_init SELL 1 50 100)\<lparr>quantity := 20\<rparr>,
         2 := (Order_init BUY 1 30 105)\<lparr>quantity := 0, nxt := Some 1\<rparr>),
      out = []\<rparr>"

text \<open>
  The partial fill chain: a SELL of 10 at 100 is inserted, then a SELL of 20 at 100, then
  a BUY of 25 at 100.
\<close>

definition partial_fill_orders :: "addr \<Rightarrow> order" where
  "partial_fill_orders =
     blank(1 := Order_init SELL 1 10 100, 2 := Order_init SELL 1 20 100,
           3 := Order_init BUY 1 25 100)"

definition partial_fill_book :: "book option" where
  "partial_fill_book = do {
     s1 \<leftarrow> add_order (OrderBook_init partial_fill_orders) 1;
     s2 \<leftarrow> add_order s1 2;
     add_order s2 3
   }"

text \<open>
  The end-to-end scenario run through the program, as a worker does: each order is
  inserted and the sweep is run.
\<close>

definition e2e_orders :: "addr \<Rightarrow> order" where
  "e2e_orders = blank(1 := Order_init SELL 1 50 100, 2 := Order_init BUY 1 30 105,
                      3 := Order_init BUY 1 20 100)"

definition e2e_run :: "book option" where
  "e2e_run = do {
     s1 \<leftarrow> add_order (OrderBook_init e2e_orders) 1;
     s2 \<leftarrow> process_orders s1 0;
     s3 \<leftarrow> add_order s2 2;
     process_orders s3 0
   }"

text \<open>The same run, followed by the insertion of a second BUY, of 20 at 100.\<close>

definition second_buy_run :: "book option" where
  "second_buy_run = do { s \<leftarrow> e2e_run; add_order s 3 }"

text \<open>
  A SELL of 5 at 200, a SELL of 10 at 100 and a BUY of 10 at 100, each inserted and
  swept; the order 4 is a BUY of 5 at 200 that is not inserted.
\<close>

definition stale_orders :: "addr \<Rightarrow> order" where
  "stale_orders = blank(1 := Order_init SELL 1 5 200, 2 := Order_init SELL 1 10 100,
                        3 := Order_init BUY 1 10 100, 4 := Order_init BUY 1 5 200)"

definition stale_run :: "book option" where
  "stale_run = do {
     s1 \<leftarrow> add_order (OrderBook_init stale_orders) 1;
     s2 \<leftarrow> process_orders s1 0;
     s3 \<leftarrow> add_order s2 2;
     s4 \<leftarrow> process_orders s3 0;
     s5 \<leftarrow> add_order s4 3;
     process_orders s5 0
   }"

lemmas scenario_defs =
  blank_def Order_init_def BUY_def SELL_def tie_book_def e2e_book_def filled_book_def stale_orders_def e2e_orders_def partial_fill_book_def partial_fill_orders_def

section \<open>Properties of chains\<close>

lemma BUY_neq_SELL: "BUY \<noteq> SELL"
  by (simp add: BUY_def SELL_def)

lemma chain_unique: "chain h p xs \<Longrightarrow> chain h p ys \<Longrightarrow> xs = ys"
proof (induction xs arbitrary: p ys)
  case Nil
  then show ?case by (cases ys) auto
next
  case (Cons a xs)
  then show ?case by (cases ys) auto
qed

lemma chain_append:
  "chain h p (xs @ ys) \<Longrightarrow> \<exists>q. chain h q ys"
  by (induction xs arbitrary: p) auto

lemma chain_head_notin_tail:
  assumes "chain h (nxt (h a)) xs"
  shows "a \<notin> set xs"
proof
  assume "a \<in> set xs"
  then obtain us vs where xs: "xs = us @ a # vs"
    by (auto simp: in_set_conv_decomp)
  have *: "chain h p (us @ a # vs) \<Longrightarrow> chain h (nxt (h a)) vs" for p
    by (induction us arbitrary: p) auto
  from assms xs have "chain h (nxt (h a)) vs"
    using * by blast
  with assms have "xs = vs"
    by (rule chain_unique)
  with xs show False by simp
qed

lemma chain_distinct: "chain h p xs \<Longrightarrow> distinct xs"
  by (induction xs arbitrary: p) (auto dest: chain_head_notin_tail)

lemma chain_frame:
  "\<forall>a\<in>set xs. nxt (h' a) = nxt (h a) \<Longrightarrow> chain h' p xs = chain h p xs"
  by (induction xs arbitrary: p) auto

lemma reachable_chain:
  "chain h p xs \<Longrightarrow> reachable h p a \<longleftrightarrow> a \<in> set xs"
proof
  assume c: "chain h p xs" and r: "reachable h p a"
  from r c show "a \<in> set xs"
  proof (induction arbitrary: xs rule: reachable.induct)
    case (here a)
    then show ?case by (cases xs) auto
  next
    case (step a b)
    then show ?case by (cases xs) auto
  qed
next
  assume "chain h p xs" and "a \<in> set xs"
  then show "reachable h p a"
  proof (induction xs arbitrary: p)
    case Nil
    then show ?case by simp
  next
    case (Cons x xs)
    then show ?case by (auto intro: reachable.intros)
  qed
qed

lemma eligible_code:
  "(otype i = BUY \<and> otype c = SELL \<and> ticker c = ticker i \<and> price c \<le> price i \<or>
    otype i = SELL \<and> otype c = BUY \<and> ticker c = ticker i \<and> price c \<ge> price i)
   = eligible i c"
  unfolding eligible_def by blast

lemma better_code:
  "(b = None \<or> otype i = BUY \<and> price c < price (h (the b)) \<or>
    otype i = SELL \<and> price c > price (h (the b)))
   = (b = None \<or> better i c (h (the b)))"
  unfolding better_def by blast

lemma scan_chain:
  "chain h cur xs \<Longrightarrow>
     scan h incoming cur prev best bp = Some (scan_list h incoming xs prev best bp)"
proof (induction xs arbitrary: cur prev best bp)
  case Nil
  then show ?case by (simp add: scan.simps)
next
  case (Cons c cs)
  then have cur: "cur = Some c" and tl: "chain h (nxt (h c)) cs" by auto
  show ?case
    unfolding cur
    apply (subst scan.simps)
    apply (simp only: option.case Cons.IH [OF tl] scan_list.simps eligible_code better_code if_distrib [of Some] cong: if_cong)
    apply simp
    done
qed

lemma collect_chain:
  "chain h cur xs \<Longrightarrow> collect h cur acc = Some (acc @ xs)"
proof (induction xs arbitrary: cur acc)
  case Nil
  then show ?case by (simp add: collect.simps)
next
  case (Cons c cs)
  then have cur: "cur = Some c" and tl: "chain h (nxt (h c)) cs" by auto
  show ?case
    unfolding cur
    by (subst collect.simps) (simp add: Cons.IH [OF tl])
qed

section \<open>The search loop\<close>

lemma last_pos_nonpos:
  "\<forall>a\<in>set xs. quantity (h a) \<le> 0 \<Longrightarrow> last_pos h prev xs = prev"
  by (induction xs arbitrary: prev) auto

lemma last_pos_append:
  "last_pos h prev (xs @ ys) = last_pos h (last_pos h prev xs) ys"
  by (induction xs arbitrary: prev) auto

lemma last_pos_cases:
  "(last_pos h prev xs = prev \<and> (\<forall>a\<in>set xs. quantity (h a) \<le> 0)) \<or>
   (\<exists>us p vs. xs = us @ p # vs \<and> last_pos h prev xs = Some p \<and> 0 < quantity (h p) \<and>
      (\<forall>a\<in>set vs. quantity (h a) \<le> 0))"
proof (induction xs rule: rev_induct)
  case Nil
  then show ?case by simp
next
  case (snoc x xs)
  show ?case
  proof (cases "0 < quantity (h x)")
    case True
    then have "xs @ [x] = xs @ x # [] \<and> last_pos h prev (xs @ [x]) = Some x"
      by (simp add: last_pos_append)
    with True show ?thesis by fastforce
  next
    case False
    then have eq: "last_pos h prev (xs @ [x]) = last_pos h prev xs"
      by (simp add: last_pos_append)
    from snoc.IH show ?thesis
    proof
      assume "last_pos h prev xs = prev \<and> (\<forall>a\<in>set xs. quantity (h a) \<le> 0)"
      with False eq show ?thesis by auto
    next
      assume "\<exists>us p vs. xs = us @ p # vs \<and> last_pos h prev xs = Some p \<and>
                0 < quantity (h p) \<and> (\<forall>a\<in>set vs. quantity (h a) \<le> 0)"
      then obtain us p vs where
        "xs = us @ p # vs" "last_pos h prev xs = Some p" "0 < quantity (h p)"
        "\<forall>a\<in>set vs. quantity (h a) \<le> 0"
        by blast
      with False eq have
        "xs @ [x] = us @ p # (vs @ [x]) \<and> last_pos h prev (xs @ [x]) = Some p \<and>
         0 < quantity (h p) \<and> (\<forall>a\<in>set (vs @ [x]). quantity (h a) \<le> 0)"
        by auto
      then show ?thesis by blast
    qed
  qed
qed

lemma better_trans:
  "better i a b \<Longrightarrow> better i b c \<Longrightarrow> better i a c"
  using BUY_neq_SELL by (auto simp: better_def)

lemma better_trans2:
  "eligible i c \<Longrightarrow> better i a b \<Longrightarrow> \<not> better i c b \<Longrightarrow> better i a c"
  using BUY_neq_SELL by (auto simp: better_def eligible_def)

lemma better_irrefl: "\<not> better i a a"
  by (simp add: better_def)

text \<open>The invariant of the search, for any loop state.\<close>

lemma scan_list_inv:
  "(scan_list h i xs prev best bp = (best, bp) \<and>
      (\<forall>c\<in>set xs. candidate h i c \<longrightarrow> best \<noteq> None \<and> \<not> better (h i) (h c) (h (the best)))) \<or>
   (\<exists>pre b post. xs = pre @ b # post \<and>
      scan_list h i xs prev best bp = (Some b, last_pos h prev pre) \<and>
      candidate h i b \<and>
      (best \<noteq> None \<longrightarrow> better (h i) (h b) (h (the best))) \<and>
      (\<forall>c\<in>set pre. candidate h i c \<longrightarrow> better (h i) (h b) (h c)) \<and>
      (\<forall>c\<in>set post. candidate h i c \<longrightarrow> \<not> better (h i) (h c) (h b)))"
  (is "?A xs prev best bp \<or> ?B xs prev best bp")
proof (induction xs arbitrary: prev best bp)
  case Nil
  then show ?case by simp
next
  case (Cons c cs)
  show ?case
  proof (cases "quantity (h c) \<le> 0")
    case True
    then have nc: "\<not> candidate h i c" by (simp add: candidate_def)
    from True have step: "scan_list h i (c # cs) prev best bp = scan_list h i cs prev best bp"
      by simp
    from Cons.IH [of prev best bp] show ?thesis
    proof
      assume "?A cs prev best bp"
      with nc step have "?A (c # cs) prev best bp" by simp
      then show ?thesis ..
    next
      assume "?B cs prev best bp"
      then obtain pre b post where B:
        "cs = pre @ b # post"
        "scan_list h i cs prev best bp = (Some b, last_pos h prev pre)"
        "candidate h i b"
        "best \<noteq> None \<longrightarrow> better (h i) (h b) (h (the best))"
        "\<forall>c\<in>set pre. candidate h i c \<longrightarrow> better (h i) (h b) (h c)"
        "\<forall>c\<in>set post. candidate h i c \<longrightarrow> \<not> better (h i) (h c) (h b)"
        by blast
      from True have lp: "last_pos h prev (c # pre) = last_pos h prev pre" by simp
      have "c # cs = (c # pre) @ b # post" using B(1) by simp
      moreover have "scan_list h i (c # cs) prev best bp = (Some b, last_pos h prev (c # pre))"
        using step B(2) lp by simp
      moreover have "\<forall>x\<in>set (c # pre). candidate h i x \<longrightarrow> better (h i) (h b) (h x)"
        using nc B(5) by simp
      ultimately have "?B (c # cs) prev best bp"
        using B(3,4,6) by blast
      then show ?thesis ..
    qed
  next
    case pos: False
    show ?thesis
    proof (cases "eligible (h i) (h c) \<and> (best = None \<or> better (h i) (h c) (h (the best)))")
      case True
      with pos have cand: "candidate h i c" by (simp add: candidate_def)
      from pos True have step:
        "scan_list h i (c # cs) prev best bp = scan_list h i cs (Some c) (Some c) prev"
        by simp
      from pos have lp: "last_pos h prev (c # pre) = last_pos h (Some c) pre" for pre by simp
      from Cons.IH [of "Some c" "Some c" prev] show ?thesis
      proof
        assume A: "?A cs (Some c) (Some c) prev"
        have "c # cs = [] @ c # cs" by simp
        moreover have "scan_list h i (c # cs) prev best bp = (Some c, last_pos h prev [])"
          using step A by simp
        moreover have "\<forall>x\<in>set cs. candidate h i x \<longrightarrow> \<not> better (h i) (h x) (h c)"
          using A by simp
        moreover have "best \<noteq> None \<longrightarrow> better (h i) (h c) (h (the best))"
          using True by blast
        moreover have "\<forall>x\<in>set []. candidate h i x \<longrightarrow> better (h i) (h c) (h x)"
          by simp
        ultimately have "?B (c # cs) prev best bp"
          using cand by blast
        then show ?thesis ..
      next
        assume "?B cs (Some c) (Some c) prev"
        then obtain pre b post where B:
          "cs = pre @ b # post"
          "scan_list h i cs (Some c) (Some c) prev = (Some b, last_pos h (Some c) pre)"
          "candidate h i b"
          "better (h i) (h b) (h c)"
          "\<forall>c\<in>set pre. candidate h i c \<longrightarrow> better (h i) (h b) (h c)"
          "\<forall>c\<in>set post. candidate h i c \<longrightarrow> \<not> better (h i) (h c) (h b)"
          by auto
        have "c # cs = (c # pre) @ b # post" using B(1) by simp
        moreover have "scan_list h i (c # cs) prev best bp = (Some b, last_pos h prev (c # pre))"
          using step B(2) lp by simp
        moreover have "\<forall>x\<in>set (c # pre). candidate h i x \<longrightarrow> better (h i) (h b) (h x)"
          using B(4,5) by simp
        moreover have "best \<noteq> None \<longrightarrow> better (h i) (h b) (h (the best))"
          using True B(4) by (auto intro: better_trans)
        ultimately have "?B (c # cs) prev best bp"
          using B(3,6) by blast
        then show ?thesis ..
      qed
    next
      case False
      with pos have step:
        "scan_list h i (c # cs) prev best bp = scan_list h i cs (Some c) best bp"
        by auto
      from pos have lp: "last_pos h prev (c # pre) = last_pos h (Some c) pre" for pre by simp
      from False have cc: "candidate h i c \<longrightarrow> best \<noteq> None \<and> \<not> better (h i) (h c) (h (the best))"
        by (auto simp: candidate_def)
      from Cons.IH [of "Some c" best bp] show ?thesis
      proof
        assume "?A cs (Some c) best bp"
        with step cc have "?A (c # cs) prev best bp" by simp
        then show ?thesis ..
      next
        assume "?B cs (Some c) best bp"
        then obtain pre b post where B:
          "cs = pre @ b # post"
          "scan_list h i cs (Some c) best bp = (Some b, last_pos h (Some c) pre)"
          "candidate h i b"
          "best \<noteq> None \<longrightarrow> better (h i) (h b) (h (the best))"
          "\<forall>c\<in>set pre. candidate h i c \<longrightarrow> better (h i) (h b) (h c)"
          "\<forall>c\<in>set post. candidate h i c \<longrightarrow> \<not> better (h i) (h c) (h b)"
          by blast
        have "c # cs = (c # pre) @ b # post" using B(1) by simp
        moreover have "scan_list h i (c # cs) prev best bp = (Some b, last_pos h prev (c # pre))"
          using step B(2) lp by simp
        moreover have "candidate h i c \<longrightarrow> better (h i) (h b) (h c)"
          using cc B(4) by (auto simp: candidate_def intro: better_trans2)
        then have "\<forall>x\<in>set (c # pre). candidate h i x \<longrightarrow> better (h i) (h b) (h x)"
          using B(5) by simp
        ultimately have "?B (c # cs) prev best bp"
          using B(3,4,6) by blast
        then show ?thesis ..
      qed
    qed
  qed
qed

section \<open>The effect of \<^verbatim>\<open>match_order\<close> on a book that is a list\<close>

lemma scan_list_start:
  "(scan_list h i xs None None None = (None, None) \<and> (\<forall>c\<in>set xs. \<not> candidate h i c)) \<or>
   (\<exists>pre b post. xs = pre @ b # post \<and>
      scan_list h i xs None None None = (Some b, last_pos h None pre) \<and>
      candidate h i b \<and>
      (\<forall>c\<in>set pre. candidate h i c \<longrightarrow> better (h i) (h b) (h c)) \<and>
      (\<forall>c\<in>set post. candidate h i c \<longrightarrow> \<not> better (h i) (h c) (h b)))"
  using scan_list_inv [of h i xs None None None] by auto

lemma candidate_neq: "candidate h i b \<Longrightarrow> i \<noteq> b"
  using BUY_neq_SELL by (auto simp: candidate_def eligible_def)

lemma match_order_none:
  assumes "chain (heap st) (head st) xs"
    and "scan_list (heap st) i xs None None None = (None, rp)"
  shows "match_order st i t = Some (False, st)"
  using assms by (simp add: match_order_def scan_chain)

lemma match_order_zero:
  assumes "chain (heap st) (head st) xs"
    and "scan_list (heap st) i xs None None None = (Some b, rp)"
    and "min (quantity (heap st i)) (quantity (heap st b)) = 0"
  shows "match_order st i t = Some (False, st)"
  using assms by (simp add: match_order_def scan_chain)

lemma match_order_trade:
  assumes "chain (heap st) (head st) xs"
    and "scan_list (heap st) i xs None None None = (Some b, rp)"
    and "i \<noteq> b"
    and "q = min (quantity (heap st i)) (quantity (heap st b))"
    and "q \<noteq> 0"
  shows "match_order st i t =
     Some (True,
       if quantity (heap st b) - q = 0 then unlinked (traded st i b t q) b rp
       else traded st i b t q)"
proof -
  have s: "scan (heap st) i (head st) None None None = Some (Some b, rp)"
    using assms(1,2) by (simp add: scan_chain)
  have q0: "min (quantity (heap st i)) (quantity (heap st b)) \<noteq> 0"
    using assms(4,5) by simp
  show ?thesis
    unfolding match_order_def s
    using assms(3) q0
    by (simp add: Let_def traded_def unlinked_def assms(4) [symmetric] split: option.split)
qed

lemma traded_fields:
  "head (traded st i b t q) = head st"
  "nxt (heap (traded st i b t q) a) = nxt (heap st a)"
  "otype (heap (traded st i b t q) a) = otype (heap st a)"
  "ticker (heap (traded st i b t q) a) = ticker (heap st a)"
  "price (heap (traded st i b t q) a) = price (heap st a)"
  "out (traded st i b t q) = out st @ [Match_Found t (heap st b) q (price (heap st b))]"
  by (simp_all add: traded_def)

lemma traded_quantity:
  "i \<noteq> b \<Longrightarrow> quantity (heap (traded st i b t q) a) =
     (if a = i \<or> a = b then quantity (heap st a) - q else quantity (heap st a))"
  by (simp add: traded_def)

lemma traded_chain:
  "chain (heap (traded st i b t q)) p xs = chain (heap st) p xs"
  by (rule chain_frame) (simp add: traded_fields)

lemma unlinked_fields:
  "quantity (heap (unlinked s b rp) a) = quantity (heap s a)"
  "otype (heap (unlinked s b rp) a) = otype (heap s a)"
  "ticker (heap (unlinked s b rp) a) = ticker (heap s a)"
  "price (heap (unlinked s b rp) a) = price (heap s a)"
  "out (unlinked s b rp) = out s"
  by (simp_all add: unlinked_def atomic_compare_and_swap_def split: option.split)

lemma chain_suffix:
  "chain h p (us @ b # post) \<Longrightarrow> chain h (nxt (h b)) post"
  by (induction us arbitrary: p) auto

lemma chain_bypass:
  assumes "chain h p0 (us @ p # vs @ b # post)"
  shows "chain (h(p := (h p)\<lparr>nxt := nxt (h b)\<rparr>)) p0 (us @ p # post)"
  using assms
proof (induction us arbitrary: p0)
  case Nil
  then have p0: "p0 = Some p" and rest: "chain h (nxt (h p)) (vs @ b # post)"
    by auto
  from rest have post: "chain h (nxt (h b)) post"
    by (rule chain_suffix)
  from rest have "p \<notin> set (vs @ b # post)"
    by (rule chain_head_notin_tail)
  then have "p \<notin> set post" by simp
  then have "chain (h(p := (h p)\<lparr>nxt := nxt (h b)\<rparr>)) (nxt (h b)) post = chain h (nxt (h b)) post"
    by (intro chain_frame) auto
  with post have "chain (h(p := (h p)\<lparr>nxt := nxt (h b)\<rparr>)) (nxt (h b)) post"
    by simp
  moreover have "nxt ((h(p := (h p)\<lparr>nxt := nxt (h b)\<rparr>)) p) = nxt (h b)"
    by simp
  ultimately show ?case
    using p0 by (simp only: append_Nil chain.simps simp_thms)
next
  case (Cons u us)
  then have p0: "p0 = Some u" and rest: "chain h (nxt (h u)) (us @ p # vs @ b # post)"
    by auto
  from rest have "u \<notin> set (us @ p # vs @ b # post)"
    by (rule chain_head_notin_tail)
  then have "u \<noteq> p" by auto
  with Cons.IH [OF rest] p0 show ?case by simp
qed

text \<open>What the removal step leaves of a chain, by the predecessor the search returned.\<close>

lemma unlinked_chain:
  assumes c: "chain (heap s) (head s) (pre @ b # post)"
  shows
   "(last_pos h0 None pre = None \<and> pre = [] \<and>
       chain (heap (unlinked s b (last_pos h0 None pre)))
             (head (unlinked s b (last_pos h0 None pre))) post) \<or>
    (last_pos h0 None pre = None \<and> pre \<noteq> [] \<and> (\<forall>a\<in>set pre. quantity (h0 a) \<le> 0) \<and>
       unlinked s b (last_pos h0 None pre) = s) \<or>
    (\<exists>us p vs. pre = us @ p # vs \<and> last_pos h0 None pre = Some p \<and> 0 < quantity (h0 p) \<and>
       (\<forall>a\<in>set vs. quantity (h0 a) \<le> 0) \<and>
       chain (heap (unlinked s b (last_pos h0 None pre)))
             (head (unlinked s b (last_pos h0 None pre))) (us @ p # post))"
proof -
  consider (nonpos) "last_pos h0 None pre = None" "\<forall>a\<in>set pre. quantity (h0 a) \<le> 0"
    | (pos) us p vs where "pre = us @ p # vs" "last_pos h0 None pre = Some p"
        "0 < quantity (h0 p)" "\<forall>a\<in>set vs. quantity (h0 a) \<le> 0"
    using last_pos_cases [of h0 None pre] by (elim disjE exE conjE) blast+
  then show ?thesis
  proof cases
    case nonpos
    show ?thesis
    proof (cases pre)
      case Nil
      with c have "head s = Some b" and "chain (heap s) (nxt (heap s b)) post"
        by auto
      then have "chain (heap (unlinked s b None)) (head (unlinked s b None)) post"
        by (simp add: unlinked_def atomic_compare_and_swap_def)
      with nonpos Nil show ?thesis by simp
    next
      case (Cons z zs)
      with c have hd: "head s = Some z" and "chain (heap s) (nxt (heap s z)) (zs @ b # post)"
        by auto
      then have "z \<notin> set (zs @ b # post)"
        by (intro chain_head_notin_tail)
      then have "z \<noteq> b" by auto
      with hd have "unlinked s b None = s"
        by (simp add: unlinked_def atomic_compare_and_swap_def)
      with nonpos Cons show ?thesis by simp
    qed
  next
    case pos
    from c pos(1) have "chain (heap s) (head s) (us @ p # vs @ b # post)"
      by simp
    then have "chain ((heap s)(p := (heap s p)\<lparr>nxt := nxt (heap s b)\<rparr>)) (head s) (us @ p # post)"
      by (rule chain_bypass)
    then have "chain (heap (unlinked s b (Some p))) (head (unlinked s b (Some p))) (us @ p # post)"
      by (simp add: unlinked_def)
    with pos show ?thesis by auto
  qed
qed


lemma match_order_cases [consumes 1, case_names none zero trade]:
  assumes "chain (heap st) (head st) xs"
  obtains
    (none) "\<forall>c\<in>set xs. \<not> candidate (heap st) i c"
      "match_order st i t = Some (False, st)"
  | (zero) pre b post where "xs = pre @ b # post" "candidate (heap st) i b"
      "min (quantity (heap st i)) (quantity (heap st b)) = 0"
      "match_order st i t = Some (False, st)"
  | (trade) pre b post q where "xs = pre @ b # post" "candidate (heap st) i b"
      "\<forall>c\<in>set pre. candidate (heap st) i c \<longrightarrow> better (heap st i) (heap st b) (heap st c)"
      "\<forall>c\<in>set post. candidate (heap st) i c \<longrightarrow> \<not> better (heap st i) (heap st c) (heap st b)"
      "q = min (quantity (heap st i)) (quantity (heap st b))" "q \<noteq> 0"
      "match_order st i t =
         Some (True,
           if quantity (heap st b) - q = 0
           then unlinked (traded st i b t q) b (last_pos (heap st) None pre)
           else traded st i b t q)"
      "scan (heap st) i (head st) None None None = Some (Some b, last_pos (heap st) None pre)"
proof -
  from scan_list_start [of "heap st" i xs]
  consider
    (A) "scan_list (heap st) i xs None None None = (None, None)"
        "\<forall>c\<in>set xs. \<not> candidate (heap st) i c"
  | (B) pre b post where "xs = pre @ b # post"
        "scan_list (heap st) i xs None None None = (Some b, last_pos (heap st) None pre)"
        "candidate (heap st) i b"
        "\<forall>c\<in>set pre. candidate (heap st) i c \<longrightarrow> better (heap st i) (heap st b) (heap st c)"
        "\<forall>c\<in>set post. candidate (heap st) i c \<longrightarrow> \<not> better (heap st i) (heap st c) (heap st b)"
    by (elim disjE exE conjE) blast+
  then show thesis
  proof cases
    case A
    from assms A(1) have "match_order st i t = Some (False, st)"
      by (rule match_order_none)
    with A(2) show thesis by (rule none)
  next
    case B
    show thesis
    proof (cases "min (quantity (heap st i)) (quantity (heap st b)) = 0")
      case True
      with assms B(2) have "match_order st i t = Some (False, st)"
        by (rule match_order_zero)
      with B(1,3) True show thesis by (rule zero)
    next
      case False
      from B(3) have "i \<noteq> b" by (rule candidate_neq)
      with assms B(2) False have
        "match_order st i t =
           Some (True,
             if quantity (heap st b) - min (quantity (heap st i)) (quantity (heap st b)) = 0
             then unlinked (traded st i b t (min (quantity (heap st i)) (quantity (heap st b)))) b
                    (last_pos (heap st) None pre)
             else traded st i b t (min (quantity (heap st i)) (quantity (heap st b))))"
        by (intro match_order_trade) auto
      moreover from assms B(2) have
        "scan (heap st) i (head st) None None None = Some (Some b, last_pos (heap st) None pre)"
        by (simp add: scan_chain)
      ultimately show thesis
        using B(1,3,4,5) False
        by (intro trade [of pre b post "min (quantity (heap st i)) (quantity (heap st b))"]) auto
    qed
  qed
qed

section \<open>Termination of \<^verbatim>\<open>process_orders\<close>\<close>

lemma weight_simps:
  "weight h [] = 0"
  "weight h (a # xs) = nat (quantity (h a)) + weight h xs"
  "weight h (xs @ ys) = weight h xs + weight h ys"
  by (simp_all add: weight_def)

lemma weight_cong:
  "\<forall>a\<in>set xs. quantity (h' a) = quantity (h a) \<Longrightarrow> weight h' xs = weight h xs"
  by (induction xs) (simp_all add: weight_simps)

lemma weight_less:
  assumes "\<forall>a\<in>set xs. quantity (h' a) \<le> quantity (h a)"
    and "b \<in> set xs" and "0 < quantity (h b)" and "quantity (h' b) < quantity (h b)"
  shows "weight h' xs < weight h xs"
  using assms
proof (induction xs)
  case Nil
  then show ?case by simp
next
  case (Cons x xs)
  have le: "weight h' xs \<le> weight h xs"
    using Cons.prems(1) by (induction xs) (auto simp: weight_simps intro: add_mono)
  show ?case
  proof (cases "x = b")
    case True
    with Cons.prems(3,4) have "nat (quantity (h' x)) < nat (quantity (h x))" by simp
    with le show ?thesis unfolding weight_simps by linarith
  next
    case False
    with Cons have "weight h' xs < weight h xs" by simp
    moreover from Cons.prems(1) have "nat (quantity (h' x)) \<le> nat (quantity (h x))"
      by (simp add: nat_mono)
    ultimately show ?thesis unfolding weight_simps by linarith
  qed
qed

lemma weight_traded:
  assumes "i \<noteq> b" "b \<in> set xs" "0 < q" "0 < quantity (heap st b)"
  shows "weight (heap (traded st i b t q)) xs < weight (heap st) xs"
  using assms by (intro weight_less [of _ _ _ b]) (auto simp: traded_quantity)

text \<open>
  A trade started by an order with a positive quantity leaves a book that is again a
  list, with a smaller total of the positive quantities.
\<close>

lemma match_order_progress:
  assumes c: "chain (heap st) (head st) xs"
    and pos: "0 < quantity (heap st i)"
    and m: "match_order st i t = Some (True, st')"
  shows "\<exists>xs'. chain (heap st') (head st') xs' \<and> weight (heap st') xs' < weight (heap st) xs"
  using c
proof (cases rule: match_order_cases [where i = i and t = t])
  case none
  with m show ?thesis by simp
next
  case zero
  with m show ?thesis by simp
next
  case (trade pre b post q)
  let ?s = "traded st i b t q"
  from trade(2) have ib: "i \<noteq> b" by (rule candidate_neq)
  from trade(2) have qb: "0 < quantity (heap st b)" by (simp add: candidate_def)
  with pos trade(5) have q: "0 < q" by simp
  have b: "b \<in> set xs" using trade(1) by simp
  have w: "weight (heap ?s) xs < weight (heap st) xs"
    using ib b q qb by (rule weight_traded)
  have cs: "chain (heap ?s) (head ?s) (pre @ b # post)"
    using c trade(1) by (simp add: traded_chain traded_fields)
  show ?thesis
  proof (cases "quantity (heap st b) - q = 0")
    case False
    with m trade(7) have "st' = ?s" by simp
    with cs w trade(1) show ?thesis by auto
  next
    case True
    let ?u = "unlinked ?s b (last_pos (heap st) None pre)"
    from True m trade(7) have st': "st' = ?u" by simp
    have wu: "weight (heap ?u) ys = weight (heap ?s) ys" for ys
      by (rule weight_cong) (simp add: unlinked_fields)
    from unlinked_chain [OF cs, of "heap st"]
    consider (hd) "chain (heap ?u) (head ?u) post"
      | (same) "?u = ?s"
      | (mid) us p vs where "pre = us @ p # vs" "chain (heap ?u) (head ?u) (us @ p # post)"
      by (elim disjE exE conjE) blast+
    then show ?thesis
    proof cases
      case hd
      have "weight (heap ?u) post = weight (heap ?s) post"
        by (rule wu)
      then have "weight (heap ?u) post \<le> weight (heap ?s) xs"
        unfolding trade(1) weight_simps by linarith
      with w hd st' show ?thesis by auto
    next
      case same
      with cs w st' trade(1) show ?thesis by auto
    next
      case mid
      have "weight (heap ?u) (us @ p # post) = weight (heap ?s) (us @ p # post)"
        by (rule wu)
      moreover have "weight (heap ?s) (us @ p # post) \<le> weight (heap ?s) ((us @ p # vs) @ b # post)"
        unfolding weight_simps by linarith
      ultimately have "weight (heap ?u) (us @ p # post) \<le> weight (heap ?s) xs"
        unfolding trade(1) mid(1) by linarith
      with w mid(2) st' show ?thesis by auto
    qed
  qed
qed

lemma match_order_returns:
  assumes "chain (heap st) (head st) xs"
  shows "\<exists>r. match_order st i t = Some r"
  using assms by (cases rule: match_order_cases [where i = i and t = t]) auto

lemma match_order_False:
  assumes "chain (heap st) (head st) xs" and "match_order st i t = Some (False, st')"
  shows "st' = st"
  using assms by (cases rule: match_order_cases [where i = i and t = t]) auto

text \<open>
  A property of the book that every trade started by an order with a positive quantity
  preserves holds when the sweep returns.
\<close>

lemma process_loop_invariant:
  assumes step: "\<And>s i s' zs. P s \<Longrightarrow> chain (heap s) (head s) zs \<Longrightarrow> 0 < quantity (heap s i) \<Longrightarrow>
      match_order s i t = Some (True, s') \<Longrightarrow> P s'"
  shows "chain (heap st) (head st) xs \<Longrightarrow> chain (heap st) cur ys \<Longrightarrow> P st \<Longrightarrow>
     \<exists>st'. process_loop st t cur = Some st' \<and> P st'"
proof (induction "weight (heap st) xs" arbitrary: st xs cur ys rule: less_induct)
  case less
  from less.prems(2) show ?case
  proof (induction ys arbitrary: cur)
    case Nil
    with less.prems(3) show ?case by (simp add: process_loop.simps)
  next
    case (Cons c ys)
    then have cur: "cur = Some c" and tl: "chain (heap st) (nxt (heap st c)) ys"
      by auto
    from Cons.IH [OF tl] obtain st1 where
      skip: "process_loop st t (nxt (heap st c)) = Some st1" and P1: "P st1"
      by blast
    show ?case
    proof (cases "0 < quantity (heap st c)")
      case False
      with skip P1 show ?thesis
        unfolding cur by (subst process_loop.simps) simp
    next
      case True
      from less.prems(1) obtain r where r: "match_order st c t = Some r"
        using match_order_returns by blast
      show ?thesis
      proof (cases "fst r")
        case False
        with r have "match_order st c t = Some (False, snd r)"
          by (cases r) simp
        with less.prems(1) have "snd r = st"
          by (rule match_order_False)
        with skip P1 True r False show ?thesis
          unfolding cur by (subst process_loop.simps) simp
      next
        case fst: True
        with r have m: "match_order st c t = Some (True, snd r)"
          by (cases r) simp
        with less.prems(1) True obtain xs' where
          "chain (heap (snd r)) (head (snd r)) xs'"
          "weight (heap (snd r)) xs' < weight (heap st) xs"
          using match_order_progress by blast
        moreover from less.prems(3) less.prems(1) True m have "P (snd r)"
          by (rule step)
        ultimately have "\<exists>st'. process_loop (snd r) t (head (snd r)) = Some st' \<and> P st'"
          using less.hyps by blast
        with True r fst show ?thesis
          unfolding cur by (subst process_loop.simps) simp
      qed
    qed
  qed
qed

lemma process_loop_returns:
  "chain (heap st) (head st) xs \<Longrightarrow> chain (heap st) cur ys \<Longrightarrow>
     \<exists>st'. process_loop st t cur = Some st'"
  using process_loop_invariant [where P = "\<lambda>_. True"] by blast

lemma process_loop_quiet:
  "chain (heap st) (head st) xs \<Longrightarrow> chain (heap st) cur ys \<Longrightarrow>
   \<forall>a\<in>set ys. 0 < quantity (heap st a) \<longrightarrow> (\<forall>c\<in>set xs. \<not> candidate (heap st) a c) \<Longrightarrow>
   process_loop st t cur = Some st"
proof (induction ys arbitrary: cur)
  case Nil
  then show ?case by (simp add: process_loop.simps)
next
  case (Cons c ys)
  then have cur: "cur = Some c" and tl: "chain (heap st) (nxt (heap st c)) ys"
    by auto
  from Cons.IH [OF Cons.prems(1) tl] Cons.prems(3)
  have skip: "process_loop st t (nxt (heap st c)) = Some st" by simp
  show ?case
  proof (cases "0 < quantity (heap st c)")
    case False
    with skip show ?thesis
      unfolding cur by (subst process_loop.simps) simp
  next
    case True
    with Cons.prems(3) have no: "\<forall>b\<in>set xs. \<not> candidate (heap st) c b" by simp
    from Cons.prems(1) have "match_order st c t = Some (False, st)"
    proof (cases rule: match_order_cases [where i = c and t = t])
      case none
      then show ?thesis by simp
    next
      case (zero pre b post)
      then show ?thesis by simp
    next
      case (trade pre b post q)
      with no show ?thesis by simp
    qed
    with skip True show ?thesis
      unfolding cur by (subst process_loop.simps) simp
  qed
qed

section \<open>What \<^verbatim>\<open>match_order\<close> keeps\<close>

text \<open>
  For a book that is a list: a call changes the quantities of the incoming order and of
  the selected order only, and no side, instrument or price; quantities stay
  non-negative; a quantity that is 0 stays 0; the incoming order of the call stays in
  the book.
\<close>

lemma match_order_frame:
  assumes "chain (heap st) (head st) xs" and "match_order st i t = Some (r, st')"
  shows "(\<forall>a. otype (heap st' a) = otype (heap st a) \<and> ticker (heap st' a) = ticker (heap st a) \<and>
            price (heap st' a) = price (heap st a)) \<and>
         (\<exists>b. \<forall>a. a \<noteq> i \<and> a \<noteq> b \<longrightarrow> quantity (heap st' a) = quantity (heap st a))"
  using assms(1)
proof (cases rule: match_order_cases [where i = i and t = t])
  case none
  with assms(2) show ?thesis by simp
next
  case zero
  with assms(2) show ?thesis by simp
next
  case (trade pre b post q)
  from trade(2) have ib: "i \<noteq> b" by (rule candidate_neq)
  from assms(2) trade(7) have
    st': "st' = (if quantity (heap st b) - q = 0
                 then unlinked (traded st i b t q) b (last_pos (heap st) None pre)
                 else traded st i b t q)"
    by simp
  have "\<forall>a. a \<noteq> i \<and> a \<noteq> b \<longrightarrow> quantity (heap st' a) = quantity (heap st a)"
    unfolding st' using ib by (simp add: unlinked_fields traded_quantity)
  moreover have "\<forall>a. otype (heap st' a) = otype (heap st a) \<and>
      ticker (heap st' a) = ticker (heap st a) \<and> price (heap st' a) = price (heap st a)"
    unfolding st' by (simp add: unlinked_fields traded_fields)
  ultimately show ?thesis by blast
qed

lemma match_order_nonneg:
  assumes "chain (heap st) (head st) xs" and "match_order st i t = Some (r, st')"
    and "\<forall>a. 0 \<le> quantity (heap st a)"
  shows "\<forall>a. 0 \<le> quantity (heap st' a)"
  using assms(1)
proof (cases rule: match_order_cases [where i = i and t = t])
  case none
  with assms(2,3) show ?thesis by simp
next
  case zero
  with assms(2,3) show ?thesis by simp
next
  case (trade pre b post q)
  from trade(2) have ib: "i \<noteq> b" by (rule candidate_neq)
  from assms(2) trade(7) have
    st': "st' = (if quantity (heap st b) - q = 0
                 then unlinked (traded st i b t q) b (last_pos (heap st) None pre)
                 else traded st i b t q)"
    by simp
  have q: "q \<le> quantity (heap st i)" "q \<le> quantity (heap st b)"
    using trade(5) by simp_all
  show ?thesis
    unfolding st' using ib q assms(3) by (simp add: unlinked_fields traded_quantity)
qed

lemma match_order_zero_stays:
  assumes "chain (heap st) (head st) xs" and "match_order st i t = Some (r, st')"
    and "quantity (heap st z) = 0"
  shows "quantity (heap st' z) = 0"
  using assms(1)
proof (cases rule: match_order_cases [where i = i and t = t])
  case none
  with assms(2,3) show ?thesis by simp
next
  case zero
  with assms(2,3) show ?thesis by simp
next
  case (trade pre b post q)
  from trade(2) have ib: "i \<noteq> b" by (rule candidate_neq)
  from trade(2) have qb: "0 < quantity (heap st b)" by (simp add: candidate_def)
  with assms(3) have zb: "z \<noteq> b" by auto
  from qb trade(5,6) have "quantity (heap st i) \<noteq> 0" by auto
  with assms(3) have zi: "z \<noteq> i" by auto
  from assms(2) trade(7) have
    st': "st' = (if quantity (heap st b) - q = 0
                 then unlinked (traded st i b t q) b (last_pos (heap st) None pre)
                 else traded st i b t q)"
    by simp
  show ?thesis
    unfolding st' using ib zi zb assms(3) by (simp add: unlinked_fields traded_quantity)
qed

lemma match_order_keeps_incoming:
  assumes c: "chain (heap st) (head st) xs" and m: "match_order st i t = Some (r, st')"
    and i: "i \<in> set xs"
  shows "reachable (heap st') (head st') i"
  using c
proof (cases rule: match_order_cases [where i = i and t = t])
  case none
  with m have "st' = st" by simp
  with c i show ?thesis by (simp add: reachable_chain)
next
  case zero
  with m have "st' = st" by simp
  with c i show ?thesis by (simp add: reachable_chain)
next
  case (trade pre b post q)
  let ?s = "traded st i b t q"
  from trade(2) have ib: "i \<noteq> b" by (rule candidate_neq)
  from trade(2) have qb: "0 < quantity (heap st b)" by (simp add: candidate_def)
  have cs: "chain (heap ?s) (head ?s) (pre @ b # post)"
    using c trade(1) by (simp add: traded_chain traded_fields)
  show ?thesis
  proof (cases "quantity (heap st b) - q = 0")
    case False
    with m trade(7) have "st' = ?s" by simp
    with cs i trade(1) show ?thesis by (simp add: reachable_chain)
  next
    case True
    let ?u = "unlinked ?s b (last_pos (heap st) None pre)"
    from True m trade(7) have st': "st' = ?u" by simp
    from True trade(5) qb have qi: "0 < quantity (heap st i)" by auto
    from unlinked_chain [OF cs, of "heap st"]
    consider (hd) "pre = []" "chain (heap ?u) (head ?u) post"
      | (same) "?u = ?s"
      | (mid) us p vs where "pre = us @ p # vs" "\<forall>a\<in>set vs. quantity (heap st a) \<le> 0"
          "chain (heap ?u) (head ?u) (us @ p # post)"
      by (elim disjE exE conjE) blast+
    then show ?thesis
    proof cases
      case hd
      from i trade(1) hd(1) ib have "i \<in> set post" by simp
      with hd(2) st' show ?thesis by (simp add: reachable_chain)
    next
      case same
      with cs i trade(1) st' show ?thesis by (simp add: reachable_chain)
    next
      case mid
      from qi mid(2) have "i \<notin> set vs" by auto
      with i trade(1) mid(1) ib have "i \<in> set (us @ p # post)" by auto
      with mid(3) st' show ?thesis by (simp add: reachable_chain)
    qed
  qed
qed

text \<open>
  The removal works when the predecessor returned by the search is right: an exhausted
  selected order that is the head, or that comes after some order with a positive
  quantity, is no longer reachable when \<^verbatim>\<open>match_order\<close> has returned.
\<close>

lemma match_order_unlinks:
  assumes c: "chain (heap st) (head st) xs" and m: "match_order st i t = Some (True, st')"
    and s: "scan (heap st) i (head st) None None None = Some (Some b, rp)"
    and z: "quantity (heap st' b) = 0"
    and ok: "head st = Some b \<or> rp \<noteq> None"
  shows "\<not> reachable (heap st') (head st') b"
  using c
proof (cases rule: match_order_cases [where i = i and t = t])
  case none
  with m show ?thesis by simp
next
  case zero
  with m show ?thesis by simp
next
  case (trade pre b' post q)
  from s trade(8) have b: "b' = b" and rp: "rp = last_pos (heap st) None pre" by simp_all
  let ?s = "traded st i b t q"
  from trade(2) b have ib: "i \<noteq> b" by (auto dest: candidate_neq)
  have cs: "chain (heap ?s) (head ?s) (pre @ b # post)"
    using c trade(1) b by (simp add: traded_chain traded_fields)
  from c have d: "distinct xs" by (rule chain_distinct)
  from m trade(7) [unfolded b] have
    st': "st' = (if quantity (heap st b) - q = 0
                 then unlinked ?s b (last_pos (heap st) None pre) else ?s)"
    by simp
  have "quantity (heap st' b) = quantity (heap st b) - q"
    unfolding st' using ib by (simp add: unlinked_fields traded_quantity)
  with z have zero: "quantity (heap st b) - q = 0" by simp
  let ?u = "unlinked ?s b (last_pos (heap st) None pre)"
  from zero st' have st'': "st' = ?u" by simp
  from unlinked_chain [OF cs, of "heap st"]
  consider (hd) "pre = []" "chain (heap ?u) (head ?u) post"
    | (same) "last_pos (heap st) None pre = None" "pre \<noteq> []"
    | (mid) us p vs where "pre = us @ p # vs" "chain (heap ?u) (head ?u) (us @ p # post)"
    by (elim disjE exE conjE) blast+
  then show ?thesis
  proof cases
    case hd
    from d trade(1) b have "b \<notin> set post" by simp
    with hd(2) st'' show ?thesis by (simp add: reachable_chain)
  next
    case same
    from c trade(1) b same(2) have "head st \<noteq> Some b"
      using d by (cases pre) auto
    with ok rp same(1) show ?thesis by simp
  next
    case mid
    from d trade(1) b mid(1) have "b \<notin> set (us @ p # post)" by auto
    with mid(2) st'' show ?thesis by (simp add: reachable_chain)
  qed
qed

text \<open>
  The sweep keeps the same properties, since it changes the book by trades only.
\<close>

lemma process_orders_keeps:
  assumes "chain (heap st) (head st) xs" and "process_orders st t = Some st'"
  shows "\<forall>a. otype (heap st' a) = otype (heap st a) \<and> ticker (heap st' a) = ticker (heap st a) \<and>
            price (heap st' a) = price (heap st a) \<and>
            (quantity (heap st a) = 0 \<longrightarrow> quantity (heap st' a) = 0) \<and>
            ((\<forall>b. 0 \<le> quantity (heap st b)) \<longrightarrow> 0 \<le> quantity (heap st' a))"
proof -
  let ?P = "\<lambda>s. \<forall>a. otype (heap s a) = otype (heap st a) \<and> ticker (heap s a) = ticker (heap st a) \<and>
            price (heap s a) = price (heap st a) \<and>
            (quantity (heap st a) = 0 \<longrightarrow> quantity (heap s a) = 0) \<and>
            ((\<forall>b. 0 \<le> quantity (heap st b)) \<longrightarrow> (\<forall>b. 0 \<le> quantity (heap s b)))"
  have "\<exists>st'. process_loop st t (head st) = Some st' \<and> ?P st'"
  proof (rule process_loop_invariant [where P = ?P, OF _ assms(1) assms(1)])
    show "?P st" by simp
  next
    fix s i s' zs
    assume P: "?P s" and c: "chain (heap s) (head s) zs"
      and m: "match_order s i t = Some (True, s')"
    from match_order_frame [OF c m] have
      f: "\<forall>a. otype (heap s' a) = otype (heap s a) \<and> ticker (heap s' a) = ticker (heap s a) \<and>
            price (heap s' a) = price (heap s a)"
      by blast
    have z: "quantity (heap s a) = 0 \<Longrightarrow> quantity (heap s' a) = 0" for a
      using c m by (rule match_order_zero_stays)
    have n: "\<forall>b. 0 \<le> quantity (heap s b) \<Longrightarrow> \<forall>b. 0 \<le> quantity (heap s' b)"
      using c m by (rule match_order_nonneg)
    show "?P s'"
    proof (intro allI conjI impI)
      fix a
      show "otype (heap s' a) = otype (heap st a)" using f P by simp
      show "ticker (heap s' a) = ticker (heap st a)" using f P by simp
      show "price (heap s' a) = price (heap st a)" using f P by simp
      show "quantity (heap s' a) = 0" if "quantity (heap st a) = 0"
        using that P z by blast
      show "0 \<le> quantity (heap s' b)" if "\<forall>b. 0 \<le> quantity (heap st b)" for b
        using that P n by blast
    qed
  qed
  with assms(2) show ?thesis
    by (auto simp: process_orders_def)
qed

section \<open>Running the program on example books\<close>

text \<open>
  In a sequential run the swap of \<^verbatim>\<open>add_order\<close> succeeds at the first attempt: the
  insertion always returns, with the order as the new head.
\<close>

lemma add_order_eq:
  "add_order st a =
     Some (st\<lparr>head := Some a,
              heap := (heap st)(a := (heap st a)\<lparr>nxt := head st\<rparr>),
              out := out st @ [Order_Added ((heap st a)\<lparr>nxt := head st\<rparr>)]\<rparr>)"
  by (subst add_order.simps) (simp add: Let_def atomic_compare_and_swap_def)

lemmas run_defs =
  add_order_eq OrderBook_init_def process_orders_def process_loop.simps match_order_def
  scan.simps atomic_compare_and_swap_def get_order_list_def collect.simps Let_def

section \<open>Creation of orders\<close>

text \<open>
  Claim C9. For every requested quantity \<open>q\<close>, also zero and negative, a constructed
  order has the remaining quantity \<open>max 1 q\<close>, which is at least 1; the constructor is a
  total function with no failing branch, and it keeps the side, the instrument and the
  price it was given, with no successor.
\<close>

theorem Order_init_quantity:
  "quantity (Order_init t k q p) = max 1 q \<and> 1 \<le> quantity (Order_init t k q p) \<and>
   otype (Order_init t k q p) = t \<and> ticker (Order_init t k q p) = k \<and>
   price (Order_init t k q p) = p \<and> nxt (Order_init t k q p) = None"
  by (simp add: Order_init_def)

section \<open>The search for the best match\<close>

text \<open>
  Claim C1. On a book that is a list \<open>xs\<close>, the search of \<^verbatim>\<open>match_order\<close> for the incoming
  order \<open>i\<close> returns. It treats as candidates exactly the orders with a positive
  quantity that are eligible: same instrument, opposite side, crossing price
  (\<open>eligible\<close>, which the condition of the code equals by \<open>eligible_code\<close>). It selects
  nothing exactly when the list has no candidate. A selected order \<open>b\<close> is a candidate;
  every candidate scanned before it has a strictly worse price and no candidate scanned
  after it has a strictly better one, so that among equal prices the first scanned, the
  most recently inserted, is selected; its price is the lowest among the candidates for
  an incoming BUY and the highest for an incoming SELL.
\<close>

theorem best_match_scan:
  assumes "chain h p xs"
  shows "\<exists>r rp. scan h i p None None None = Some (r, rp) \<and>
     (r = None \<longleftrightarrow> (\<forall>c\<in>set xs. \<not> candidate h i c)) \<and>
     (\<forall>b. r = Some b \<longrightarrow>
        candidate h i b \<and>
        (\<exists>pre post. xs = pre @ b # post \<and>
           (\<forall>c\<in>set pre. candidate h i c \<longrightarrow> better (h i) (h b) (h c)) \<and>
           (\<forall>c\<in>set post. candidate h i c \<longrightarrow> \<not> better (h i) (h c) (h b))) \<and>
        (otype (h i) = BUY \<longrightarrow> (\<forall>c\<in>set xs. candidate h i c \<longrightarrow> price (h b) \<le> price (h c))) \<and>
        (otype (h i) = SELL \<longrightarrow> (\<forall>c\<in>set xs. candidate h i c \<longrightarrow> price (h c) \<le> price (h b))))"
proof -
  have s: "scan h i p None None None = Some (scan_list h i xs None None None)"
    using assms by (rule scan_chain)
  from scan_list_start [of h i xs] show ?thesis
  proof (elim disjE exE conjE)
    assume "scan_list h i xs None None None = (None, None)"
      and "\<forall>c\<in>set xs. \<not> candidate h i c"
    with s show ?thesis by simp
  next
    fix pre b post
    assume xs: "xs = pre @ b # post"
      and r: "scan_list h i xs None None None = (Some b, last_pos h None pre)"
      and cb: "candidate h i b"
      and pre: "\<forall>c\<in>set pre. candidate h i c \<longrightarrow> better (h i) (h b) (h c)"
      and post: "\<forall>c\<in>set post. candidate h i c \<longrightarrow> \<not> better (h i) (h c) (h b)"
    have nb: "\<not> better (h i) (h c) (h b)" if "c \<in> set xs" "candidate h i c" for c
    proof (cases "c \<in> set pre")
      case True
      with pre that have "better (h i) (h b) (h c)" by simp
      then show ?thesis
        using BUY_neq_SELL by (auto simp: better_def)
    next
      case False
      with that xs have "c = b \<or> c \<in> set post" by auto
      with post that show ?thesis
        by (auto simp: better_irrefl)
    qed
    have buy: "price (h b) \<le> price (h c)"
      if "otype (h i) = BUY" "c \<in> set xs" "candidate h i c" for c
      using nb [OF that(2,3)] that(1) by (simp add: better_def)
    have sell: "price (h c) \<le> price (h b)"
      if "otype (h i) = SELL" "c \<in> set xs" "candidate h i c" for c
      using nb [OF that(2,3)] that(1) by (simp add: better_def)
    have "\<not> (\<forall>c\<in>set xs. \<not> candidate h i c)"
      using xs cb by auto
    moreover have "\<exists>pre post. xs = pre @ b # post \<and>
           (\<forall>c\<in>set pre. candidate h i c \<longrightarrow> better (h i) (h b) (h c)) \<and>
           (\<forall>c\<in>set post. candidate h i c \<longrightarrow> \<not> better (h i) (h c) (h b))"
      using xs pre post by blast
    ultimately show ?thesis
      using s r cb buy sell by simp
  qed
qed

text \<open>
  The tie of the specification: of two eligible SELL orders at price 8 the search for a
  BUY selects the order 2, inserted last, and not the order 1.
\<close>

theorem best_match_scan_witness:
  "chain (heap tie_book) (head tie_book) [3, 2, 1] \<and>
   scan (heap tie_book) 4 (head tie_book) None None None = Some (Some 2, Some 3) \<and>
   candidate (heap tie_book) 4 2 \<and>
   price (heap tie_book 2) = 8 \<and> price (heap tie_book 1) = 8 \<and> price (heap tie_book 3) = 10"
proof -
  have c: "chain (heap tie_book) (head tie_book) [3, 2, 1]"
    by (simp add: scenario_defs)
  have l: "scan_list (heap tie_book) 4 [3, 2, 1] None None None = (Some 2, Some 3)"
    by (simp add: scenario_defs eligible_def better_def)
  have s: "scan (heap tie_book) 4 (head tie_book) None None None = Some (Some 2, Some 3)"
    unfolding scan_chain [OF c] l ..
  from best_match_scan [OF c, of 4] obtain r rp where
    "scan (heap tie_book) 4 (head tie_book) None None None = Some (r, rp)"
    "\<forall>b. r = Some b \<longrightarrow> candidate (heap tie_book) 4 b"
    by blast
  with s have "candidate (heap tie_book) 4 2"
    by simp
  moreover have "price (heap tie_book 2) = 8 \<and> price (heap tie_book 1) = 8 \<and>
      price (heap tie_book 3) = 10"
    by (simp add: scenario_defs)
  ultimately show ?thesis
    using c s by blast
qed

section \<open>Executed trades\<close>

text \<open>
  Claim C2. When \<^verbatim>\<open>match_order\<close> executes a trade on a book that is a list (it returns true),
  the search has selected an order \<open>b\<close>; the traded quantity \<open>q\<close> is the minimum of the
  remaining quantities of the incoming order and of \<open>b\<close> before the trade; afterwards
  each of the two has its quantity reduced by exactly \<open>q\<close>; the trade is printed once, with
  \<open>q\<close> and the price of \<open>b\<close>; and the prices cross: for an incoming BUY the price of \<open>b\<close>
  is at most that of the incoming order, for an incoming SELL at least.
\<close>

theorem executed_trade:
  assumes "chain (heap st) (head st) xs"
    and "match_order st i t = Some (True, st')"
  shows "\<exists>b rp q. scan (heap st) i (head st) None None None = Some (Some b, rp) \<and>
     q = min (quantity (heap st i)) (quantity (heap st b)) \<and>
     quantity (heap st' i) + q = quantity (heap st i) \<and>
     quantity (heap st' b) + q = quantity (heap st b) \<and>
     out st' = out st @ [Match_Found t (heap st b) q (price (heap st b))] \<and>
     eligible (heap st i) (heap st b) \<and>
     (otype (heap st i) = BUY \<longrightarrow> price (heap st b) \<le> price (heap st i)) \<and>
     (otype (heap st i) = SELL \<longrightarrow> price (heap st b) \<ge> price (heap st i))"
  using assms(1)
proof (cases rule: match_order_cases [where i = i and t = t])
  case none
  with assms(2) show ?thesis by simp
next
  case zero
  with assms(2) show ?thesis by simp
next
  case (trade pre b post q)
  let ?s = "traded st i b t q"
  from trade(2) have ib: "i \<noteq> b" by (rule candidate_neq)
  from trade(2) have el: "eligible (heap st i) (heap st b)" by (simp add: candidate_def)
  from assms(2) trade(7) have
    st': "st' = (if quantity (heap st b) - q = 0
                 then unlinked ?s b (last_pos (heap st) None pre) else ?s)"
    by simp
  have qi: "quantity (heap st' i) = quantity (heap st i) - q"
    unfolding st' using ib by (simp add: unlinked_fields traded_quantity)
  have qb: "quantity (heap st' b) = quantity (heap st b) - q"
    unfolding st' using ib by (simp add: unlinked_fields traded_quantity)
  have o: "out st' = out st @ [Match_Found t (heap st b) q (price (heap st b))]"
    unfolding st' by (simp add: unlinked_fields traded_fields)
  have buy: "otype (heap st i) = BUY \<longrightarrow> price (heap st b) \<le> price (heap st i)"
    using el BUY_neq_SELL by (auto simp: eligible_def)
  have sell: "otype (heap st i) = SELL \<longrightarrow> price (heap st b) \<ge> price (heap st i)"
    using el BUY_neq_SELL by (auto simp: eligible_def)
  from trade(8) trade(5) qi qb o el buy sell show ?thesis
    by (intro exI [of _ b] exI [of _ "last_pos (heap st) None pre"] exI [of _ q]) simp
qed

text \<open>
  The end-to-end scenario: the BUY of 30 at 105 trades 30 at price 100 with the SELL of
  50, which keeps 20.
\<close>

theorem executed_trade_witness:
  "chain (heap e2e_book) (head e2e_book) [2, 1] \<and>
   match_order e2e_book 2 7 = Some (True, traded e2e_book 2 1 7 30) \<and>
   quantity (heap (traded e2e_book 2 1 7 30) 2) = 0 \<and>
   quantity (heap (traded e2e_book 2 1 7 30) 1) = 20 \<and>
   out (traded e2e_book 2 1 7 30) = [Match_Found 7 (heap e2e_book 1) 30 100] \<and>
   (\<exists>b rp q. scan (heap e2e_book) 2 (head e2e_book) None None None = Some (Some b, rp) \<and>
      q = min (quantity (heap e2e_book 2)) (quantity (heap e2e_book b)) \<and>
      quantity (heap (traded e2e_book 2 1 7 30) 2) + q = quantity (heap e2e_book 2) \<and>
      quantity (heap (traded e2e_book 2 1 7 30) b) + q = quantity (heap e2e_book b))"
proof -
  have c: "chain (heap e2e_book) (head e2e_book) [2, 1]"
    by (simp add: scenario_defs)
  have l: "scan_list (heap e2e_book) 2 [2, 1] None None None = (Some 1, Some 2)"
    by (simp add: scenario_defs eligible_def better_def)
  have q: "(30::int) = min (quantity (heap e2e_book 2)) (quantity (heap e2e_book 1))"
    by (simp add: scenario_defs)
  have k: "quantity (heap e2e_book 1) - 30 \<noteq> 0"
    by (simp add: scenario_defs)
  have m: "match_order e2e_book 2 7 = Some (True, traded e2e_book 2 1 7 30)"
    using match_order_trade [OF c l _ q, of 7] k by simp
  from executed_trade [OF c m] have
    "\<exists>b rp q. scan (heap e2e_book) 2 (head e2e_book) None None None = Some (Some b, rp) \<and>
      q = min (quantity (heap e2e_book 2)) (quantity (heap e2e_book b)) \<and>
      quantity (heap (traded e2e_book 2 1 7 30) 2) + q = quantity (heap e2e_book 2) \<and>
      quantity (heap (traded e2e_book 2 1 7 30) b) + q = quantity (heap e2e_book b)"
    by blast
  moreover have "quantity (heap (traded e2e_book 2 1 7 30) 2) = 0 \<and>
      quantity (heap (traded e2e_book 2 1 7 30) 1) = 20 \<and>
      out (traded e2e_book 2 1 7 30) = [Match_Found 7 (heap e2e_book 1) 30 100]"
    by (simp add: traded_def scenario_defs)
  ultimately show ?thesis
    using c m by blast
qed

section \<open>Outcomes without a trade\<close>

text \<open>
  Claim C7. On a book that is a list, \<^verbatim>\<open>match_order\<close> returns a result (the model has no
  raising branch, as the source has none). When the list holds no candidate the result is
  false and the state is unchanged. When the search selects an order but the traded
  quantity is 0, the result is false and the state is unchanged: no quantity, no link and
  no output differ. Whenever the result is false the state is the one before the call.
\<close>

theorem match_order_no_trade:
  assumes "chain (heap st) (head st) xs"
  shows "(\<exists>r. match_order st i t = Some r) \<and>
     ((\<forall>c\<in>set xs. \<not> candidate (heap st) i c) \<longrightarrow> match_order st i t = Some (False, st)) \<and>
     (\<forall>b rp. scan (heap st) i (head st) None None None = Some (Some b, rp) \<and>
         min (quantity (heap st i)) (quantity (heap st b)) = 0 \<longrightarrow>
         match_order st i t = Some (False, st)) \<and>
     (\<forall>st'. match_order st i t = Some (False, st') \<longrightarrow> st' = st)"
proof (intro conjI allI impI)
  show "\<exists>r. match_order st i t = Some r"
    using assms by (rule match_order_returns)
next
  assume no: "\<forall>c\<in>set xs. \<not> candidate (heap st) i c"
  from assms show "match_order st i t = Some (False, st)"
  proof (cases rule: match_order_cases [where i = i and t = t])
    case none
    then show ?thesis by simp
  next
    case zero
    then show ?thesis by simp
  next
    case (trade pre b post q)
    with no show ?thesis by simp
  qed
next
  fix b rp
  assume "scan (heap st) i (head st) None None None = Some (Some b, rp) \<and>
         min (quantity (heap st i)) (quantity (heap st b)) = 0"
  then show "match_order st i t = Some (False, st)"
    by (simp add: match_order_def)
next
  fix st'
  assume "match_order st i t = Some (False, st')"
  with assms show "st' = st"
    by (rule match_order_False)
qed

text \<open>
  The filled BUY of the end-to-end scenario as incoming order: the SELL is selected, the
  traded quantity is 0, and the call returns false and leaves the book as it was.
\<close>

theorem match_order_no_trade_witness:
  "chain (heap filled_book) (head filled_book) [2, 1] \<and>
   scan (heap filled_book) 2 (head filled_book) None None None = Some (Some 1, None) \<and>
   min (quantity (heap filled_book 2)) (quantity (heap filled_book 1)) = 0 \<and>
   match_order filled_book 2 7 = Some (False, filled_book)"
proof -
  have c: "chain (heap filled_book) (head filled_book) [2, 1]"
    by (simp add: scenario_defs)
  have l: "scan_list (heap filled_book) 2 [2, 1] None None None = (Some 1, None)"
    by (simp add: scenario_defs eligible_def better_def)
  have s: "scan (heap filled_book) 2 (head filled_book) None None None = Some (Some 1, None)"
    unfolding scan_chain [OF c] l ..
  have z: "min (quantity (heap filled_book 2)) (quantity (heap filled_book 1)) = 0"
    by (simp add: scenario_defs)
  from match_order_no_trade [OF c, of 2 7] s z
  have "match_order filled_book 2 7 = Some (False, filled_book)"
    by blast
  with c s z show ?thesis by blast
qed

section \<open>The matching sweep\<close>

text \<open>
  Claim C8. On every book that is a finite list \<^verbatim>\<open>process_orders\<close> returns: a trade
  makes the total of the positive quantities smaller (\<open>match_order_progress\<close>), and
  between two trades the scan moves towards the end of the list. On a book in which no
  order with a positive quantity has a candidate, it returns the state it was given: no
  trade is printed and nothing is changed.
\<close>

theorem process_orders_terminates:
  assumes "chain (heap st) (head st) xs"
  shows "(\<exists>st'. process_orders st t = Some st') \<and>
     ((\<forall>a\<in>set xs. 0 < quantity (heap st a) \<longrightarrow> (\<forall>c\<in>set xs. \<not> candidate (heap st) a c)) \<longrightarrow>
        process_orders st t = Some st)"
  unfolding process_orders_def
  using process_loop_returns [OF assms assms] process_loop_quiet [OF assms assms]
  by blast

text \<open>The book of three SELL orders has no crossing pair; the sweep returns it unchanged.\<close>

theorem process_orders_terminates_witness:
  "chain (heap tie_book) (head tie_book) [3, 2, 1] \<and>
   \<not> candidate (heap tie_book) 3 2 \<and> \<not> candidate (heap tie_book) 2 1 \<and>
   process_orders tie_book 7 = Some tie_book"
proof -
  have c: "chain (heap tie_book) (head tie_book) [3, 2, 1]"
    by (simp add: scenario_defs)
  have n: "\<forall>a\<in>set [3, 2, 1]. 0 < quantity (heap tie_book a) \<longrightarrow>
      (\<forall>c\<in>set [3, 2, 1]. \<not> candidate (heap tie_book) a c)"
    by (simp add: scenario_defs candidate_def eligible_def)
  from process_orders_terminates [OF c, of 7] n
  have "process_orders tie_book 7 = Some tie_book"
    by blast
  moreover have "\<not> candidate (heap tie_book) 3 2 \<and> \<not> candidate (heap tie_book) 2 1"
    by (simp add: scenario_defs candidate_def eligible_def)
  ultimately show ?thesis
    using c by blast
qed

text \<open>
  Claim C4. After the three insertions of the partial fill chain, one call of
  \<^verbatim>\<open>process_orders\<close> returns and prints exactly two trades: 20 against the SELL
  inserted last, which is exhausted and leaves the book, then 5 against the SELL
  inserted first. The BUY ends with quantity 0 and the first SELL with quantity 5.
\<close>

theorem partial_fill_chain:
  "\<exists>s st. partial_fill_book = Some s \<and> get_order_list s = Some [3, 2, 1] \<and>
     process_orders s 7 = Some st \<and>
     out st = out s @
       [Match_Found 7 ((Order_init SELL 1 20 100)\<lparr>nxt := Some 1\<rparr>) 20 100,
        Match_Found 7 (Order_init SELL 1 10 100) 5 100] \<and>
     quantity (heap st 3) = 0 \<and> quantity (heap st 2) = 0 \<and> quantity (heap st 1) = 5 \<and>
     get_order_list st = Some [3, 1]"
  by (simp add: partial_fill_book_def partial_fill_orders_def scenario_defs run_defs)

section \<open>The snapshot\<close>

text \<open>
  Claim C5, as stated, fails: \<^verbatim>\<open>get_order_list\<close> does not look at quantities. After the
  end-to-end scenario the filled BUY (order 2, quantity 0) is still the head of the book
  and the snapshot returns it, so the snapshot is not the list of the reachable orders
  with a positive quantity.
\<close>

theorem snapshot_keeps_filled_order:
  "\<exists>st. e2e_run = Some st \<and> chain (heap st) (head st) [2, 1] \<and>
     quantity (heap st 2) = 0 \<and> quantity (heap st 1) = 20 \<and>
     get_order_list st = Some [2, 1] \<and>
     get_order_list st \<noteq> Some (filter (\<lambda>a. 0 < quantity (heap st a)) [2, 1])"
  by (simp add: e2e_run_def e2e_orders_def scenario_defs run_defs)

text \<open>
  Claim C5, amended. For every book that is a finite list, \<^verbatim>\<open>get_order_list\<close> returns
  exactly the orders reachable from the head, whatever their remaining quantity, each
  once, in head-to-tail order (the most recently inserted first). It is a function of the
  book that returns the list only: the book is not changed. An order whose quantity is 0
  and that is still linked is in the snapshot.
\<close>

theorem snapshot_all_reachable:
  assumes "chain (heap st) (head st) xs"
  shows "get_order_list st = Some xs \<and> distinct xs \<and>
     (\<forall>a. a \<in> set xs \<longleftrightarrow> reachable (heap st) (head st) a)"
  using assms collect_chain [OF assms, of "[]"] chain_distinct [OF assms]
    reachable_chain [OF assms]
  by (simp add: get_order_list_def)

theorem snapshot_all_reachable_witness:
  "chain (heap filled_book) (head filled_book) [2, 1] \<and>
   get_order_list filled_book = Some [2, 1] \<and>
   quantity (heap filled_book 2) = 0 \<and>
   reachable (heap filled_book) (head filled_book) 2"
proof -
  have c: "chain (heap filled_book) (head filled_book) [2, 1]"
    by (simp add: scenario_defs)
  have q: "quantity (heap filled_book 2) = 0"
    by (simp add: scenario_defs)
  from snapshot_all_reachable [OF c] have
    g: "get_order_list filled_book = Some [2, 1]"
    and r: "\<forall>a. a \<in> set [2, 1] \<longleftrightarrow> reachable (heap filled_book) (head filled_book) a"
    by blast+
  from r have "(2::nat) \<in> set [2, 1] \<longleftrightarrow> reachable (heap filled_book) (head filled_book) 2"
    by (rule spec)
  then have "reachable (heap filled_book) (head filled_book) 2"
    by simp
  with c g q show ?thesis
    by blast
qed

section \<open>Exhausted orders that stay behind the head\<close>

text \<open>
  Claim C6 fails on the code. The search passes an exhausted order without updating
  \<^verbatim>\<open>prev\<close>, so the predecessor it returns is the last order with a positive quantity
  before the selected one, not its immediate predecessor. After \<open>stale_run\<close> the book is
  the filled BUY 3 followed by the SELL 1. For the incoming BUY 4 the search selects the
  order 1 and returns no predecessor, although the order 1 is not the head: the head is
  the order 3, whose successor is the order 1. After \<open>second_buy_run\<close> the book is the
  BUY 3, the filled BUY 2 and the SELL 1; for the incoming order 3, as \<^verbatim>\<open>process_orders\<close>
  calls it, the search selects the order 1 and returns the order 3 as its predecessor,
  while the successor of the order 3 is the order 2. The second half of the claim holds:
  the removal is the swap of the head when no predecessor was returned and the
  assignment to the link of the returned predecessor otherwise (\<open>match_order_trade\<close>,
  \<open>unlinked_def\<close>).
\<close>

theorem scan_returns_stale_predecessor:
  "(\<exists>s. stale_run = Some s \<and> get_order_list s = Some [3, 1] \<and>
      quantity (heap s 3) = 0 \<and> quantity (heap s 1) = 5 \<and>
      head s = Some 3 \<and> nxt (heap s 3) = Some 1 \<and>
      scan (heap s) 4 (head s) None None None = Some (Some 1, None)) \<and>
   (\<exists>s. second_buy_run = Some s \<and> get_order_list s = Some [3, 2, 1] \<and>
      quantity (heap s 3) = 20 \<and> quantity (heap s 2) = 0 \<and> quantity (heap s 1) = 20 \<and>
      nxt (heap s 3) = Some 2 \<and> nxt (heap s 2) = Some 1 \<and>
      scan (heap s) 3 (head s) None None None = Some (Some 1, Some 3))"
proof
  show "\<exists>s. stale_run = Some s \<and> get_order_list s = Some [3, 1] \<and>
      quantity (heap s 3) = 0 \<and> quantity (heap s 1) = 5 \<and>
      head s = Some 3 \<and> nxt (heap s 3) = Some 1 \<and>
      scan (heap s) 4 (head s) None None None = Some (Some 1, None)"
    by (simp add: stale_run_def stale_orders_def scenario_defs run_defs)
  show "\<exists>s. second_buy_run = Some s \<and> get_order_list s = Some [3, 2, 1] \<and>
      quantity (heap s 3) = 20 \<and> quantity (heap s 2) = 0 \<and> quantity (heap s 1) = 20 \<and>
      nxt (heap s 3) = Some 2 \<and> nxt (heap s 2) = Some 1 \<and>
      scan (heap s) 3 (head s) None None None = Some (Some 1, Some 3)"
    by (simp add: second_buy_run_def e2e_run_def e2e_orders_def scenario_defs run_defs)
qed

text \<open>
  Claim C3 fails on the code, by the same defect. In the book above, the trade of the
  incoming BUY 4 exhausts the SELL 1; the removal compares the head with the order 1,
  finds the order 3 and does nothing. The order 1 has quantity 0 and is still reachable
  from the head when \<^verbatim>\<open>match_order\<close> has returned. The rest of the claim holds on the
  code: quantities stay non-negative and a quantity of 0 never changes
  (\<open>match_order_nonneg\<close>, \<open>match_order_zero_stays\<close>, \<open>process_orders_keeps\<close>), an order
  without a positive quantity is never selected (\<open>match_order_cases\<close>), and the removal
  works when the selected order is the head or follows an order with a positive
  quantity (\<open>match_order_unlinks\<close>).
\<close>

theorem exhausted_candidate_stays_linked:
  "\<exists>s r. stale_run = Some s \<and> get_order_list s = Some [3, 1] \<and>
     quantity (heap s 1) = 5 \<and>
     match_order s 4 7 = Some (True, r) \<and>
     quantity (heap r 1) = 0 \<and> quantity (heap r 4) = 0 \<and>
     head r = Some 3 \<and> nxt (heap r 3) = Some 1 \<and>
     get_order_list r = Some [3, 1]"
  by (simp add: stale_run_def stale_orders_def scenario_defs run_defs)

text \<open>
  Claim C10 fails on the code, by the same defect. After the end-to-end scenario and the
  insertion of a second BUY the book is the BUY 3, the filled BUY 2 and the SELL 1.
  \<^verbatim>\<open>match_order\<close> for the incoming order 3 selects the order 1 with the predecessor 3
  and exhausts it; the removal links the order 3 to the successor of the order 1, which
  takes the order 2 out of the book as well, an order that is neither the incoming order
  nor the selected one. The rest of the claim holds on the code: a call changes no
  quantity but those of the incoming and of the selected order and no side, instrument
  or price (\<open>match_order_frame\<close>), and the incoming order of the call stays in the book
  (\<open>match_order_keeps_incoming\<close>).
\<close>

theorem bystander_unlinked:
  "\<exists>s r. second_buy_run = Some s \<and> get_order_list s = Some [3, 2, 1] \<and>
     quantity (heap s 2) = 0 \<and>
     scan (heap s) 3 (head s) None None None = Some (Some 1, Some 3) \<and>
     match_order s 3 7 = Some (True, r) \<and>
     get_order_list r = Some [3] \<and>
     \<not> reachable (heap r) (head r) 2"
proof -
  have "\<exists>s r. second_buy_run = Some s \<and> get_order_list s = Some [3, 2, 1] \<and>
     quantity (heap s 2) = 0 \<and>
     scan (heap s) 3 (head s) None None None = Some (Some 1, Some 3) \<and>
     match_order s 3 7 = Some (True, r) \<and>
     get_order_list r = Some [3] \<and> chain (heap r) (head r) [3]"
    by (simp add: second_buy_run_def e2e_run_def e2e_orders_def scenario_defs run_defs)
  then obtain s r where *: "second_buy_run = Some s" "get_order_list s = Some [3, 2, 1]"
     "quantity (heap s 2) = 0"
     "scan (heap s) 3 (head s) None None None = Some (Some 1, Some 3)"
     "match_order s 3 7 = Some (True, r)"
     "get_order_list r = Some [3]" "chain (heap r) (head r) [3]"
    by blast
  from reachable_chain [OF *(7), of 2] have "\<not> reachable (heap r) (head r) 2"
    by simp
  with * show ?thesis by blast
qed

end
